theory Spec2Isabelle
  imports Main
begin

section \<open>The game of snake (src/snake.py): data model\<close>

text \<open>
  The class \<open>Snake\<close> of src/snake.py is embedded as a record of its attributes and one
  function per method. Calls into pyxel that only draw or play sound (the classes
  \<open>Music\<close> and \<open>Colors\<close>, the \<open>draw\<close> methods) do not touch the attributes of the game
  and are left out. What a method can do besides returning is a value of the result:
  \<^item> \<open>None\<close>: the method never returns (the loop of \<open>generate_apple\<close> runs forever);
  \<^item> \<open>Some (Inl e)\<close>: the method stops the program, by a Python exception or by
    \<open>pyxel.quit()\<close>;
  \<^item> \<open>Some (Inr s)\<close>: the method returns and leaves the attributes \<open>s\<close>.
\<close>

datatype stop = IndexError | AttributeError | ValueError | Quit

text \<open>\<open>Point = namedtuple("Point", ["x", "y"])\<close>: compared and hashed by value.\<close>

datatype Point = Point (px: int) (py: int)

text \<open>
  The direction is compared with \<open>is not\<close>, by identity, so a direction is an object:
  an identity \<open>oid\<close> and the value \<open>pt\<close> it holds. The four module constants are four
  distinct objects.
\<close>

datatype PointObj = PointObj (oid: nat) (pt: Point)

definition WIDTH :: int where
  "WIDTH = 40"

definition HEIGHT :: int where
  "HEIGHT = 50"

text \<open>
  \<open>HEIGHT_SCORE = pyxel.FONT_HEIGHT\<close> is a constant of the pyxel library, which is not
  part of the repository: every function that reads it takes it as the parameter \<open>hs\<close>.
\<close>

definition UP :: PointObj where
  "UP = PointObj 0 (Point 0 (- 1))"

definition DOWN :: PointObj where
  "DOWN = PointObj 1 (Point 0 1)"

definition RIGHT :: PointObj where
  "RIGHT = PointObj 2 (Point 1 0)"

definition LEFT :: PointObj where
  "LEFT = PointObj 3 (Point (- 1) 0)"

definition START :: "int \<Rightarrow> Point" where
  "START hs = Point 5 (5 + hs)"

text \<open>
  The attributes of the game. \<open>snake\<close> is the deque, index 0 first. \<open>popped_point\<close> is
  \<open>None\<close> as long as the attribute has never been assigned. \<open>randpos\<close> is not an
  attribute: it is the state of the module \<open>random\<close>, the number of values drawn so far.
\<close>

record Snake =
  direction :: PointObj
  snake :: "Point list"
  death :: bool
  score :: int
  apple :: Point
  popped_point :: "Point option"
  randpos :: nat

text \<open>
  What pyxel reports on one frame: \<open>btn\<close> for the arrow keys and Q (held),
  \<open>btnp\<close> for R and T (pressed on this frame).
\<close>

record keys =
  KEY_UP :: bool
  KEY_DOWN :: bool
  KEY_LEFT :: bool
  KEY_RIGHT :: bool
  KEY_Q :: bool
  KEY_R :: bool
  KEY_T :: bool

type_synonym 'a outcome = "(stop + 'a) option"

text \<open>Sequencing: the second statement runs only if the first one returns.\<close>

definition then_do :: "'a outcome \<Rightarrow> ('a \<Rightarrow> 'b outcome) \<Rightarrow> 'b outcome" where
  "then_do m f = (case m of None \<Rightarrow> None | Some (Inl e) \<Rightarrow> Some (Inl e) | Some (Inr a) \<Rightarrow> f a)"

section \<open>The random source\<close>

text \<open>
  \<open>random.randint(a, b)\<close> raises ValueError on an empty range and otherwise returns
  some integer of \<open>a..b\<close>. The source of randomness is a sequence \<open>rnd\<close> of naturals,
  one for each call; the call maps its natural into the range, so every sequence of
  results that \<open>randint\<close> can produce is produced by some \<open>rnd\<close>.
\<close>

definition randint :: "int \<Rightarrow> int \<Rightarrow> nat \<Rightarrow> stop + int" where
  "randint a b r = (if b < a then Inl ValueError else Inr (a + int (r mod nat (b - a + 1))))"

section \<open>Game logic\<close>

text \<open>
  The loop of \<open>generate_apple\<close>:
  \<^verbatim>\<open>
        while self.apple in snake_pixels:
            x = randint(0, WIDTH - 1)
            y = randint(HEIGHT_SCORE + 1, HEIGHT - 1)
            self.apple = Point(x, y)
  \<close>
  It may run forever, which is the value \<open>None\<close>.
\<close>

partial_function (option) apple_loop ::
  "int \<Rightarrow> (nat \<Rightarrow> nat) \<Rightarrow> Point list \<Rightarrow> Point \<Rightarrow> nat \<Rightarrow> (stop + Point \<times> nat) option" where
  "apple_loop hs rnd snake_pixels a i =
     (if a \<in> set snake_pixels then
        (case randint 0 (WIDTH - 1) (rnd i) of
           Inl e \<Rightarrow> Some (Inl e)
         | Inr x \<Rightarrow>
            (case randint (hs + 1) (HEIGHT - 1) (rnd (i + 1)) of
               Inl e \<Rightarrow> Some (Inl e)
             | Inr y \<Rightarrow> apple_loop hs rnd snake_pixels (Point x y) (i + 2)))
      else Some (Inr (a, i)))"

definition generate_apple :: "int \<Rightarrow> (nat \<Rightarrow> nat) \<Rightarrow> Snake \<Rightarrow> Snake outcome" where
  "generate_apple hs rnd s =
     (case snake s of
        [] \<Rightarrow> Some (Inl IndexError)
      | head # _ \<Rightarrow>
          then_do (apple_loop hs rnd (snake s) head (randpos s))
            (\<lambda>(a, i). Some (Inr (s\<lparr>apple := a, randpos := i\<rparr>))))"

definition reset :: "int \<Rightarrow> (nat \<Rightarrow> nat) \<Rightarrow> Snake \<Rightarrow> Snake outcome" where
  "reset hs rnd s =
     generate_apple hs rnd (s\<lparr>direction := RIGHT, snake := [START hs], death := False, score := 0\<rparr>)"

text \<open>
  \<open>__init__\<close> calls \<open>reset\<close> on an object that has no attribute yet. \<open>reset\<close> assigns
  every attribute but \<open>popped_point\<close>, so what the other fields hold before is immaterial.
\<close>

definition new_game :: "int \<Rightarrow> (nat \<Rightarrow> nat) \<Rightarrow> nat \<Rightarrow> Snake outcome" where
  "new_game hs rnd seed =
     reset hs rnd \<lparr>direction = RIGHT, snake = [], death = False, score = 0,
                  apple = Point 0 0, popped_point = None, randpos = seed\<rparr>"

definition update_direction :: "keys \<Rightarrow> Snake \<Rightarrow> Snake" where
  "update_direction k s =
     (if KEY_UP k \<and> oid (direction s) \<noteq> oid DOWN then s\<lparr>direction := UP\<rparr>
      else if KEY_DOWN k \<and> oid (direction s) \<noteq> oid UP then s\<lparr>direction := DOWN\<rparr>
      else if KEY_LEFT k \<and> oid (direction s) \<noteq> oid RIGHT then s\<lparr>direction := LEFT\<rparr>
      else if KEY_RIGHT k \<and> oid (direction s) \<noteq> oid LEFT then s\<lparr>direction := RIGHT\<rparr>
      else s)"

definition update_snake :: "Snake \<Rightarrow> Snake outcome" where
  "update_snake s =
     (case snake s of
        [] \<Rightarrow> Some (Inl IndexError)
      | old_head # _ \<Rightarrow>
          (let new_head = Point (px old_head + px (pt (direction s)))
                                (py old_head + py (pt (direction s)));
               grown = new_head # snake s
           in Some (Inr (s\<lparr>snake := butlast grown, popped_point := Some (last grown)\<rparr>))))"

definition death_event :: "Snake \<Rightarrow> Snake" where
  "death_event s = s\<lparr>death := True\<rparr>"

definition check_death :: "int \<Rightarrow> Snake \<Rightarrow> Snake outcome" where
  "check_death hs s =
     (case snake s of
        [] \<Rightarrow> Some (Inl IndexError)
      | head # _ \<Rightarrow>
          (if px head < 0 \<or> py head \<le> hs \<or> px head \<ge> WIDTH \<or> py head \<ge> HEIGHT
           then Some (Inr (death_event s))
           else if length (snake s) \<noteq> card (set (snake s)) then Some (Inr (death_event s))
           else Some (Inr s)))"

definition check_apple :: "int \<Rightarrow> (nat \<Rightarrow> nat) \<Rightarrow> Snake \<Rightarrow> Snake outcome" where
  "check_apple hs rnd s =
     (case snake s of
        [] \<Rightarrow> Some (Inl IndexError)
      | head # _ \<Rightarrow>
          (if head = apple s then
             (case popped_point s of
                None \<Rightarrow> Some (Inl AttributeError)
              | Some p \<Rightarrow> generate_apple hs rnd (s\<lparr>score := score s + 1, snake := snake s @ [p]\<rparr>))
           else Some (Inr s)))"

text \<open>The four calls of \<open>update\<close> under \<open>if not self.death\<close>.\<close>

definition alive_steps :: "int \<Rightarrow> (nat \<Rightarrow> nat) \<Rightarrow> keys \<Rightarrow> Snake \<Rightarrow> Snake outcome" where
  "alive_steps hs rnd k s =
     then_do (update_snake (update_direction k s))
       (\<lambda>s1. then_do (check_death hs s1) (check_apple hs rnd))"

text \<open>The body of \<open>if pyxel.btnp(pyxel.KEY_T)\<close>.\<close>

definition debug_growth :: "Snake \<Rightarrow> Snake outcome" where
  "debug_growth s =
     (case popped_point s of
        None \<Rightarrow> Some (Inl AttributeError)
      | Some p \<Rightarrow> Some (Inr (s\<lparr>snake := snake s @ [p], score := score s + 1\<rparr>)))"

text \<open>
  \<open>update\<close>, one tick. \<open>pyxel.quit()\<close> ends the process: the statements after it do
  not run.
\<close>

definition update :: "int \<Rightarrow> (nat \<Rightarrow> nat) \<Rightarrow> keys \<Rightarrow> Snake \<Rightarrow> Snake outcome" where
  "update hs rnd k s =
     then_do (if \<not> death s then alive_steps hs rnd k s else Some (Inr s))
       (\<lambda>s1. if KEY_Q k then Some (Inl Quit)
             else then_do (if KEY_R k then reset hs rnd s1 else Some (Inr s1))
               (\<lambda>s2. if KEY_T k then debug_growth s2 else Some (Inr s2)))"

text \<open>\<open>pyxel.run\<close> calls \<open>update\<close> once per frame: a run over the frames' keys.\<close>

fun run :: "int \<Rightarrow> (nat \<Rightarrow> nat) \<Rightarrow> keys list \<Rightarrow> Snake \<Rightarrow> Snake outcome" where
  "run hs rnd [] s = Some (Inr s)"
| "run hs rnd (k # ks) s = then_do (update hs rnd k s) (run hs rnd ks)"

text \<open>\<open>Snake()\<close>: \<open>__init__\<close>, then the frames.\<close>

definition play :: "int \<Rightarrow> (nat \<Rightarrow> nat) \<Rightarrow> nat \<Rightarrow> keys list \<Rightarrow> Snake outcome" where
  "play hs rnd seed ks = then_do (new_game hs rnd seed) (run hs rnd ks)"

section \<open>Notions of the specification\<close>

text \<open>The playable rectangle: \<open>0 \<le> x < W\<close> and \<open>scoreBarHeight < y < H\<close>.\<close>

definition inBounds :: "int \<Rightarrow> Point \<Rightarrow> bool" where
  "inBounds hs c = (0 \<le> px c \<and> px c < WIDTH \<and> hs < py c \<and> py c < HEIGHT)"

text \<open>The exact opposite of a direction vector.\<close>

definition opposite :: "Point \<Rightarrow> Point" where
  "opposite d = Point (- px d) (- py d)"

text \<open>The directions whose key is held, in the precedence order Up, Down, Left, Right.\<close>

definition requested :: "keys \<Rightarrow> PointObj list" where
  "requested k =
     map snd (filter fst [(KEY_UP k, UP), (KEY_DOWN k, DOWN), (KEY_LEFT k, LEFT), (KEY_RIGHT k, RIGHT)])"

text \<open>
  The direction update in the words of the specification: the first requested
  direction that is not the exact opposite of the current one, else the current one.
\<close>

definition accept_direction :: "keys \<Rightarrow> PointObj \<Rightarrow> PointObj" where
  "accept_direction k d =
     (case filter (\<lambda>r. pt r \<noteq> opposite (pt d)) (requested k) of [] \<Rightarrow> d | r # _ \<Rightarrow> r)"

text \<open>
  The direction update with value equality (\<open>!=\<close>) in place of identity (\<open>is not\<close>),
  as the specification proposes to reimplement it.
\<close>

definition update_direction_eq :: "keys \<Rightarrow> Snake \<Rightarrow> Snake" where
  "update_direction_eq k s =
     (if KEY_UP k \<and> pt (direction s) \<noteq> pt DOWN then s\<lparr>direction := UP\<rparr>
      else if KEY_DOWN k \<and> pt (direction s) \<noteq> pt UP then s\<lparr>direction := DOWN\<rparr>
      else if KEY_LEFT k \<and> pt (direction s) \<noteq> pt RIGHT then s\<lparr>direction := LEFT\<rparr>
      else if KEY_RIGHT k \<and> pt (direction s) \<noteq> pt LEFT then s\<lparr>direction := RIGHT\<rparr>
      else s)"

section \<open>Invariants of the game\<close>

text \<open>
  The snake is not empty, and a dead game has popped a tail: what the handler of the T
  key needs.
\<close>

definition ready :: "Snake \<Rightarrow> bool" where
  "ready s = (snake s \<noteq> [] \<and> (death s \<longrightarrow> popped_point s \<noteq> None))"

text \<open>
  The apple is not on the snake; in a dead game it is not the stored popped coordinate
  either, which the T key appends.
\<close>

definition apple_off :: "Snake \<Rightarrow> bool" where
  "apple_off s = (snake s \<noteq> [] \<and> apple s \<notin> set (snake s) \<and>
                  (death s \<longrightarrow> (\<exists>p. popped_point s = Some p \<and> p \<noteq> apple s)))"

text \<open>
  The apple is in the playable rectangle, and in a live game it is on no cell of the
  snake before the last one.
\<close>

definition tidy :: "int \<Rightarrow> Snake \<Rightarrow> bool" where
  "tidy hs s = (snake s \<noteq> [] \<and> inBounds hs (apple s) \<and>
                (\<not> death s \<longrightarrow> apple s \<notin> set (butlast (snake s))))"

section \<open>Concrete inputs\<close>

text \<open>The keys of a frame: none, and the combinations used in the examples.\<close>

definition no_keys :: keys where
  "no_keys = \<lparr>KEY_UP = False, KEY_DOWN = False, KEY_LEFT = False, KEY_RIGHT = False,
              KEY_Q = False, KEY_R = False, KEY_T = False\<rparr>"

definition keys_up :: keys where
  "keys_up = no_keys\<lparr>KEY_UP := True\<rparr>"

definition keys_T :: keys where
  "keys_T = no_keys\<lparr>KEY_T := True\<rparr>"

definition keys_QR :: keys where
  "keys_QR = no_keys\<lparr>KEY_Q := True, KEY_R := True\<rparr>"

definition keys_RT :: keys where
  "keys_RT = no_keys\<lparr>KEY_R := True, KEY_T := True\<rparr>"

definition keys_ULR :: keys where
  "keys_ULR = no_keys\<lparr>KEY_UP := True, KEY_LEFT := True, KEY_RIGHT := True\<rparr>"

text \<open>
  A random source whose every value is 20, which puts every apple at (20, 27) when
  \<open>HEIGHT_SCORE = 6\<close>, and the game right after \<open>__init__\<close> with it.
\<close>

definition rnd20 :: "nat \<Rightarrow> nat" where
  "rnd20 n = 20"

definition fresh :: Snake where
  "fresh = \<lparr>direction = RIGHT, snake = [Point 5 11], death = False, score = 0,
            apple = Point 20 27, popped_point = None, randpos = 2\<rparr>"

text \<open>
  The same game after a turn up and three more ticks, one cell below the score bar; one
  tick later, dead in the score bar; and the dead game after the T key.
\<close>

definition at_wall :: Snake where
  "at_wall = \<lparr>direction = UP, snake = [Point 5 7], death = False, score = 0,
              apple = Point 20 27, popped_point = Some (Point 5 8), randpos = 2\<rparr>"

definition dead_wall :: Snake where
  "dead_wall = \<lparr>direction = UP, snake = [Point 5 6], death = True, score = 0,
                apple = Point 20 27, popped_point = Some (Point 5 7), randpos = 2\<rparr>"

definition dead_grown :: Snake where
  "dead_grown = \<lparr>direction = UP, snake = [Point 5 6, Point 5 7], death = True, score = 1,
                 apple = Point 20 27, popped_point = Some (Point 5 7), randpos = 2\<rparr>"

text \<open>
  A random source that puts the first apple at (6, 11), right of the start; the game
  right after \<open>__init__\<close> with it, and one tick later with the T key pressed.
\<close>

definition rnd_near :: "nat \<Rightarrow> nat" where
  "rnd_near n = (if n = 0 then 6 else if n = 1 then 4 else 20)"

definition near :: Snake where
  "near = \<lparr>direction = RIGHT, snake = [Point 5 11], death = False, score = 0,
           apple = Point 6 11, popped_point = None, randpos = 2\<rparr>"

definition near_eaten :: Snake where
  "near_eaten = \<lparr>direction = RIGHT, snake = [Point 6 11, Point 5 11, Point 5 11], death = False,
                 score = 2, apple = Point 20 27, popped_point = Some (Point 5 11), randpos = 4\<rparr>"

text \<open>
  A random source that puts the second apple at (6, 11); the game with it after one
  quiet tick and one tick with R and T pressed together.
\<close>

definition rnd_stale :: "nat \<Rightarrow> nat" where
  "rnd_stale n = (if n = 2 then 6 else if n = 3 then 4 else 20)"

definition stale :: Snake where
  "stale = \<lparr>direction = RIGHT, snake = [Point 5 11, Point 6 11], death = False, score = 1,
            apple = Point 6 11, popped_point = Some (Point 6 11), randpos = 4\<rparr>"

section \<open>Sequencing and the random source\<close>

lemma then_do_simps:
  "then_do None f = None"
  "then_do (Some (Inl e)) f = Some (Inl e)"
  "then_do (Some (Inr a)) f = f a"
  by (simp_all add: then_do_def)

lemma then_do_Inr:
  "then_do m f = Some (Inr b) \<longleftrightarrow> (\<exists>a. m = Some (Inr a) \<and> f a = Some (Inr b))"
  by (auto simp: then_do_def split: option.splits sum.splits)

lemma then_do_Inl:
  "then_do m f = Some (Inl e) \<longleftrightarrow>
     m = Some (Inl e) \<or> (\<exists>a. m = Some (Inr a) \<and> f a = Some (Inl e))"
  by (auto simp: then_do_def split: option.splits sum.splits)

lemma randint_range:
  assumes "randint a b r = Inr v"
  shows "a \<le> v \<and> v \<le> b"
proof -
  from assms have ab: "a \<le> b" and v: "v = a + int (r mod nat (b - a + 1))"
    by (auto simp: randint_def split: if_splits)
  have "r mod nat (b - a + 1) < nat (b - a + 1)"
    using ab by (intro mod_less_divisor) simp
  with ab v show ?thesis by linarith
qed

lemma randint_Inl: "randint a b r = Inl e \<Longrightarrow> e = ValueError"
  by (auto simp: randint_def split: if_splits)

section \<open>The placement loop\<close>

lemma apple_loop_free:
  "a \<notin> set snake_pixels \<Longrightarrow> apple_loop hs rnd snake_pixels a i = Some (Inr (a, i))"
  by (subst apple_loop.simps) simp

lemma apple_loop_taken:
  "a \<in> set snake_pixels \<Longrightarrow> hs + 1 \<le> HEIGHT - 1 \<Longrightarrow>
   apple_loop hs rnd snake_pixels a i =
     apple_loop hs rnd snake_pixels
       (Point (int (rnd i mod 40)) (hs + 1 + int (rnd (i + 1) mod nat (HEIGHT - 1 - hs)))) (i + 2)"
  by (subst apple_loop.simps) (simp add: randint_def WIDTH_def HEIGHT_def)

text \<open>
  Whatever the loop returns is free, and is either the coordinate it started from or a
  sample of the playable rectangle.
\<close>

lemma apple_loop_result_aux:
  assumes "apple_loop hs rnd snake_pixels a i = Some r"
  shows "\<forall>a' i'. r = Inr (a', i') \<longrightarrow> a' \<notin> set snake_pixels \<and> (a' = a \<or> inBounds hs a')"
  using assms
proof (rule apple_loop.raw_induct [rotated 1, where
      P = "\<lambda>hs rnd snake_pixels a i r.
             \<forall>a' i'. r = Inr (a', i') \<longrightarrow> a' \<notin> set snake_pixels \<and> (a' = a \<or> inBounds hs a')"])
  fix f :: "int \<Rightarrow> (nat \<Rightarrow> nat) \<Rightarrow> Point list \<Rightarrow> Point \<Rightarrow> nat \<Rightarrow> (stop + Point \<times> nat) option"
    and hs :: int and rnd :: "nat \<Rightarrow> nat" and snake_pixels :: "Point list"
    and a :: Point and i :: nat and r :: "stop + Point \<times> nat"
  assume IH: "\<And>hs rnd snake_pixels a i r. f hs rnd snake_pixels a i = Some r \<Longrightarrow>
      \<forall>a' i'. r = Inr (a', i') \<longrightarrow> a' \<notin> set snake_pixels \<and> (a' = a \<or> inBounds hs a')"
  assume body: "(if a \<in> set snake_pixels then
        (case randint 0 (WIDTH - 1) (rnd i) of
           Inl e \<Rightarrow> Some (Inl e)
         | Inr x \<Rightarrow>
            (case randint (hs + 1) (HEIGHT - 1) (rnd (i + 1)) of
               Inl e \<Rightarrow> Some (Inl e)
             | Inr y \<Rightarrow> f hs rnd snake_pixels (Point x y) (i + 2)))
      else Some (Inr (a, i))) = Some r"
  show "\<forall>a' i'. r = Inr (a', i') \<longrightarrow> a' \<notin> set snake_pixels \<and> (a' = a \<or> inBounds hs a')"
  proof (cases "a \<in> set snake_pixels")
    case False
    with body show ?thesis by auto
  next
    case True
    show ?thesis
    proof (intro allI impI)
      fix a' i' assume r: "r = Inr (a', i')"
      from body True r obtain x y where
        x: "randint 0 (WIDTH - 1) (rnd i) = Inr x" and
        y: "randint (hs + 1) (HEIGHT - 1) (rnd (i + 1)) = Inr y" and
        rec: "f hs rnd snake_pixels (Point x y) (i + 2) = Some (Inr (a', i'))"
        by (auto split: sum.splits)
      from IH[OF rec] have free: "a' \<notin> set snake_pixels"
        and or: "a' = Point x y \<or> inBounds hs a'" by auto
      from randint_range[OF x] randint_range[OF y] have "inBounds hs (Point x y)"
        by (simp add: inBounds_def)
      with free or show "a' \<notin> set snake_pixels \<and> (a' = a \<or> inBounds hs a')" by auto
    qed
  qed
qed

lemma apple_loop_result:
  assumes "apple_loop hs rnd snake_pixels a i = Some (Inr (a', i'))"
  shows "a' \<notin> set snake_pixels \<and> (a' = a \<or> inBounds hs a')"
  using apple_loop_result_aux[OF assms] by blast

text \<open>
  The only exception the loop can raise is the ValueError of \<open>randint\<close>.
\<close>

lemma apple_loop_error_aux:
  assumes "apple_loop hs rnd snake_pixels a i = Some r"
  shows "\<forall>e. r = Inl e \<longrightarrow> e = ValueError"
  using assms
proof (rule apple_loop.raw_induct [rotated 1, where
      P = "\<lambda>hs rnd snake_pixels a i r. \<forall>e. r = Inl e \<longrightarrow> e = ValueError"])
  fix f :: "int \<Rightarrow> (nat \<Rightarrow> nat) \<Rightarrow> Point list \<Rightarrow> Point \<Rightarrow> nat \<Rightarrow> (stop + Point \<times> nat) option"
    and hs :: int and rnd :: "nat \<Rightarrow> nat" and snake_pixels :: "Point list"
    and a :: Point and i :: nat and r :: "stop + Point \<times> nat"
  assume IH: "\<And>hs rnd snake_pixels a i r. f hs rnd snake_pixels a i = Some r \<Longrightarrow>
      \<forall>e. r = Inl e \<longrightarrow> e = ValueError"
  assume body: "(if a \<in> set snake_pixels then
        (case randint 0 (WIDTH - 1) (rnd i) of
           Inl e \<Rightarrow> Some (Inl e)
         | Inr x \<Rightarrow>
            (case randint (hs + 1) (HEIGHT - 1) (rnd (i + 1)) of
               Inl e \<Rightarrow> Some (Inl e)
             | Inr y \<Rightarrow> f hs rnd snake_pixels (Point x y) (i + 2)))
      else Some (Inr (a, i))) = Some r"
  show "\<forall>e. r = Inl e \<longrightarrow> e = ValueError"
  proof (intro allI impI)
    fix e assume r: "r = Inl e"
    with body have in_set: "a \<in> set snake_pixels" by (auto split: if_splits)
    show "e = ValueError"
    proof (cases "randint 0 (WIDTH - 1) (rnd i)")
      case (Inl e1)
      with body in_set r randint_Inl[OF Inl] show ?thesis by simp
    next
      case x: (Inr x)
      show ?thesis
      proof (cases "randint (hs + 1) (HEIGHT - 1) (rnd (i + 1))")
        case (Inl e2)
        with body in_set r x randint_Inl[OF Inl] show ?thesis by simp
      next
        case (Inr y)
        with body in_set r x have "f hs rnd snake_pixels (Point x y) (i + 2) = Some (Inl e)"
          by simp
        from IH[OF this] show ?thesis by simp
      qed
    qed
  qed
qed

text \<open>
  The loop returns as soon as the random source yields a free cell: if the sample drawn
  \<open>n\<close> rounds from now is not on the snake, the placement returns.
\<close>

lemma apple_loop_returns:
  assumes range: "hs + 1 \<le> HEIGHT - 1"
  shows "Point (int (rnd (i + 2 * n) mod 40))
               (hs + 1 + int (rnd (i + 2 * n + 1) mod nat (HEIGHT - 1 - hs))) \<notin> set snake_pixels \<Longrightarrow>
         \<exists>a j. apple_loop hs rnd snake_pixels a0 i = Some (Inr (a, j))"
proof (induction n arbitrary: a0 i)
  case 0
  show ?case
  proof (cases "a0 \<in> set snake_pixels")
    case False
    then show ?thesis by (simp add: apple_loop_free)
  next
    case True
    from "0.prems" show ?thesis
      by (simp add: apple_loop_taken[OF True range] apple_loop_free)
  qed
next
  case (Suc n)
  show ?case
  proof (cases "a0 \<in> set snake_pixels")
    case False
    then show ?thesis by (simp add: apple_loop_free)
  next
    case True
    from Suc.prems have "Point (int (rnd (i + 2 + 2 * n) mod 40))
               (hs + 1 + int (rnd (i + 2 + 2 * n + 1) mod nat (HEIGHT - 1 - hs))) \<notin> set snake_pixels"
      by (simp add: add.commute add.left_commute)
    from Suc.IH[OF this] show ?thesis
      by (subst apple_loop_taken[OF True range])
  qed
qed

lemma generate_apple_result:
  assumes "generate_apple hs rnd s = Some (Inr s')"
  shows "\<exists>a i. s' = s\<lparr>apple := a, randpos := i\<rparr> \<and> a \<notin> set (snake s) \<and> inBounds hs a"
proof -
  from assms obtain head rest where sn: "snake s = head # rest"
    by (cases "snake s") (auto simp: generate_apple_def)
  with assms obtain a i where
    loop: "apple_loop hs rnd (snake s) head (randpos s) = Some (Inr (a, i))" and
    s': "s' = s\<lparr>apple := a, randpos := i\<rparr>"
    by (auto simp: generate_apple_def then_do_Inr)
  from apple_loop_result[OF loop] sn have "a \<notin> set (snake s) \<and> inBounds hs a"
    by auto
  with s' show ?thesis by blast
qed

lemma generate_apple_no_AttributeError:
  "generate_apple hs rnd s \<noteq> Some (Inl AttributeError)"
proof (cases "snake s")
  case Nil
  then show ?thesis by (simp add: generate_apple_def)
next
  case (Cons h t)
  show ?thesis
  proof
    assume "generate_apple hs rnd s = Some (Inl AttributeError)"
    with Cons have "apple_loop hs rnd (snake s) h (randpos s) = Some (Inl AttributeError)"
      by (auto simp: generate_apple_def then_do_Inl)
    from apple_loop_error_aux[OF this] show False by simp
  qed
qed

section \<open>The steps of a tick\<close>

lemma card_set_length: "length xs \<noteq> card (set xs) \<longleftrightarrow> \<not> distinct xs"
  by (metis card_distinct distinct_card)

lemma update_direction_fields [simp]:
  "snake (update_direction k s) = snake s"
  "death (update_direction k s) = death s"
  "score (update_direction k s) = score s"
  "apple (update_direction k s) = apple s"
  "popped_point (update_direction k s) = popped_point s"
  "randpos (update_direction k s) = randpos s"
  by (simp_all add: update_direction_def)

lemma update_direction_constants:
  "direction s \<in> {UP, DOWN, LEFT, RIGHT} \<Longrightarrow>
   direction (update_direction k s) \<in> {UP, DOWN, LEFT, RIGHT}"
  by (simp add: update_direction_def)

lemma update_snake_Inr:
  "update_snake s = Some (Inr s1) \<longleftrightarrow>
     snake s \<noteq> [] \<and>
     s1 = s\<lparr>snake := Point (px (hd (snake s)) + px (pt (direction s)))
                          (py (hd (snake s)) + py (pt (direction s))) # butlast (snake s),
            popped_point := Some (last (snake s))\<rparr>"
  by (cases "snake s") (auto simp: update_snake_def Let_def)

lemma update_snake_not_Attr: "update_snake s \<noteq> Some (Inl AttributeError)" "update_snake s \<noteq> None"
  by (cases "snake s"; simp add: update_snake_def Let_def)+

lemma check_death_eq:
  assumes "snake s \<noteq> []"
  shows "check_death hs s =
     Some (Inr (if px (hd (snake s)) < 0 \<or> py (hd (snake s)) \<le> hs \<or> px (hd (snake s)) \<ge> WIDTH
                   \<or> py (hd (snake s)) \<ge> HEIGHT \<or> \<not> distinct (snake s)
                then s\<lparr>death := True\<rparr> else s))"
proof -
  from assms obtain h t where ht: "snake s = h # t" by (cases "snake s") auto
  have dup: "(length (h # t) \<noteq> card (set (h # t))) = (\<not> distinct (h # t))"
    by (rule card_set_length)
  show ?thesis
    unfolding check_death_def death_event_def ht list.case list.sel dup by simp
qed

lemma check_death_popped:
  "check_death hs s = Some (Inr s') \<Longrightarrow> popped_point s' = popped_point s"
  by (cases "snake s") (auto simp: check_death_def death_event_def split: if_splits)

lemma check_death_no_AttributeError: "check_death hs s \<noteq> Some (Inl AttributeError)"
  by (cases "snake s") (auto simp: check_death_def)

lemma check_apple_death:
  "check_apple hs rnd s = Some (Inr s') \<Longrightarrow> death s' = death s"
  by (cases "snake s")
     (auto simp: check_apple_def split: if_splits option.splits dest!: generate_apple_result)

lemma check_apple_Inr:
  assumes "check_apple hs rnd s = Some (Inr s')"
  shows "snake s \<noteq> [] \<and>
         ((hd (snake s) \<noteq> apple s \<and> s' = s) \<or>
          (hd (snake s) = apple s \<and>
           (\<exists>p a i. popped_point s = Some p \<and>
                    s' = s\<lparr>score := score s + 1, snake := snake s @ [p], apple := a, randpos := i\<rparr> \<and>
                    a \<notin> set (snake s @ [p]) \<and> inBounds hs a)))"
proof (cases "snake s")
  case Nil
  with assms show ?thesis by (simp add: check_apple_def)
next
  case (Cons h t)
  show ?thesis
  proof (cases "h = apple s")
    case False
    with assms Cons show ?thesis by (simp add: check_apple_def)
  next
    case True
    with assms Cons obtain p where p: "popped_point s = Some p"
      and g: "generate_apple hs rnd (s\<lparr>score := score s + 1, snake := snake s @ [p]\<rparr>) = Some (Inr s')"
      by (auto simp: check_apple_def split: option.splits)
    from generate_apple_result[OF g] p True Cons show ?thesis by auto
  qed
qed

lemma check_apple_miss:
  "snake s \<noteq> [] \<Longrightarrow> hd (snake s) \<noteq> apple s \<Longrightarrow> check_apple hs rnd s = Some (Inr s)"
  by (cases "snake s") (simp_all add: check_apple_def)

lemma check_apple_AttributeError:
  assumes "check_apple hs rnd s = Some (Inl AttributeError)"
  shows "popped_point s = None"
proof (cases "snake s")
  case Nil
  with assms show ?thesis by (simp add: check_apple_def)
next
  case (Cons h t)
  with assms generate_apple_no_AttributeError show ?thesis
    by (auto simp: check_apple_def split: if_splits option.splits)
qed

lemma reset_Inr:
  assumes "reset hs rnd s = Some (Inr s')"
  shows "\<exists>a i. s' = s\<lparr>direction := RIGHT, snake := [START hs], death := False, score := 0,
                       apple := a, randpos := i\<rparr> \<and> a \<noteq> START hs \<and> inBounds hs a"
  using generate_apple_result[OF assms[unfolded reset_def]] by auto

lemma reset_no_AttributeError: "reset hs rnd s \<noteq> Some (Inl AttributeError)"
  by (simp add: reset_def generate_apple_no_AttributeError)

lemma new_game_Inr:
  assumes "new_game hs rnd seed = Some (Inr s)"
  shows "snake s = [START hs] \<and> \<not> death s \<and> score s = 0 \<and> direction s = RIGHT \<and>
         popped_point s = None \<and> apple s \<noteq> START hs \<and> inBounds hs (apple s)"
  using reset_Inr[OF assms[unfolded new_game_def]] by auto

lemma debug_growth_Inr:
  "debug_growth s = Some (Inr s') \<longleftrightarrow>
     (\<exists>p. popped_point s = Some p \<and> s' = s\<lparr>snake := snake s @ [p], score := score s + 1\<rparr>)"
  by (auto simp: debug_growth_def split: option.splits)

lemma alive_steps_Inr:
  "alive_steps hs rnd k s = Some (Inr s') \<longleftrightarrow>
     (\<exists>s1 s2. update_snake (update_direction k s) = Some (Inr s1) \<and>
              check_death hs s1 = Some (Inr s2) \<and> check_apple hs rnd s2 = Some (Inr s'))"
  unfolding alive_steps_def then_do_Inr by blast

text \<open>
  What the four steps of an alive tick leave, field by field.
\<close>

lemma alive_steps_fields:
  assumes "alive_steps hs rnd k s = Some (Inr s3)"
  shows "\<exists>s1. update_snake (update_direction k s) = Some (Inr s1) \<and>
           snake s \<noteq> [] \<and>
           popped_point s3 = Some (last (snake s)) \<and>
           direction s3 = direction (update_direction k s) \<and>
           death s3 = (death s \<or> px (hd (snake s1)) < 0 \<or> py (hd (snake s1)) \<le> hs \<or>
                       px (hd (snake s1)) \<ge> WIDTH \<or> py (hd (snake s1)) \<ge> HEIGHT \<or>
                       \<not> distinct (snake s1)) \<and>
           snake s1 = hd (snake s1) # butlast (snake s) \<and>
           ((hd (snake s1) \<noteq> apple s \<and> snake s3 = snake s1 \<and> apple s3 = apple s \<and>
             score s3 = score s \<and> randpos s3 = randpos s) \<or>
            (hd (snake s1) = apple s \<and> snake s3 = snake s1 @ [last (snake s)] \<and>
             apple s3 \<notin> set (snake s3) \<and> inBounds hs (apple s3) \<and> score s3 = score s + 1))"
proof -
  from assms obtain s1 s2 where
    us: "update_snake (update_direction k s) = Some (Inr s1)" and
    cd: "check_death hs s1 = Some (Inr s2)" and
    ca: "check_apple hs rnd s2 = Some (Inr s3)"
    by (auto simp: alive_steps_Inr)
  from us have ne: "snake s \<noteq> []" and
    s1: "s1 = (update_direction k s)\<lparr>snake := Point (px (hd (snake s)) + px (pt (direction (update_direction k s))))
                          (py (hd (snake s)) + py (pt (direction (update_direction k s)))) # butlast (snake s),
            popped_point := Some (last (snake s))\<rparr>"
    by (simp_all add: update_snake_Inr)
  from s1 have ne1: "snake s1 \<noteq> []" and sn1: "snake s1 = hd (snake s1) # butlast (snake s)"
    and pp1: "popped_point s1 = Some (last (snake s))" and ap1: "apple s1 = apple s"
    and sc1: "score s1 = score s" and d1: "death s1 = death s" and rp1: "randpos s1 = randpos s"
    and dir1: "direction s1 = direction (update_direction k s)"
    by simp_all
  let ?F = "px (hd (snake s1)) < 0 \<or> py (hd (snake s1)) \<le> hs \<or> px (hd (snake s1)) \<ge> WIDTH
                   \<or> py (hd (snake s1)) \<ge> HEIGHT \<or> \<not> distinct (snake s1)"
  from cd have s2: "s2 = (if ?F then s1\<lparr>death := True\<rparr> else s1)"
    unfolding check_death_eq[OF ne1] by simp
  then have sn2: "snake s2 = snake s1" and pp2: "popped_point s2 = popped_point s1"
    and ap2: "apple s2 = apple s1" and sc2: "score s2 = score s1" and rp2: "randpos s2 = randpos s1"
    and dir2: "direction s2 = direction s1" and d2: "death s2 = (death s1 \<or> ?F)"
    by (simp_all split: if_splits)
  from check_apple_Inr[OF ca] have
    "(hd (snake s2) \<noteq> apple s2 \<and> s3 = s2) \<or>
          (hd (snake s2) = apple s2 \<and>
           (\<exists>p a i. popped_point s2 = Some p \<and>
                    s3 = s2\<lparr>score := score s2 + 1, snake := snake s2 @ [p], apple := a, randpos := i\<rparr> \<and>
                    a \<notin> set (snake s2 @ [p]) \<and> inBounds hs a))" by simp
  then have tail: "(hd (snake s1) \<noteq> apple s \<and> snake s3 = snake s1 \<and> apple s3 = apple s \<and>
             score s3 = score s \<and> randpos s3 = randpos s) \<or>
            (hd (snake s1) = apple s \<and> snake s3 = snake s1 @ [last (snake s)] \<and>
             apple s3 \<notin> set (snake s3) \<and> inBounds hs (apple s3) \<and> score s3 = score s + 1)"
    and same: "popped_point s3 = popped_point s2 \<and> direction s3 = direction s2 \<and> death s3 = death s2"
  proof -
    assume c: "(hd (snake s2) \<noteq> apple s2 \<and> s3 = s2) \<or>
          (hd (snake s2) = apple s2 \<and>
           (\<exists>p a i. popped_point s2 = Some p \<and>
                    s3 = s2\<lparr>score := score s2 + 1, snake := snake s2 @ [p], apple := a, randpos := i\<rparr> \<and>
                    a \<notin> set (snake s2 @ [p]) \<and> inBounds hs a))"
    show "popped_point s3 = popped_point s2 \<and> direction s3 = direction s2 \<and> death s3 = death s2"
      using c by auto
    from c show "(hd (snake s1) \<noteq> apple s \<and> snake s3 = snake s1 \<and> apple s3 = apple s \<and>
             score s3 = score s \<and> randpos s3 = randpos s) \<or>
            (hd (snake s1) = apple s \<and> snake s3 = snake s1 @ [last (snake s)] \<and>
             apple s3 \<notin> set (snake s3) \<and> inBounds hs (apple s3) \<and> score s3 = score s + 1)"
    proof
      assume "hd (snake s2) \<noteq> apple s2 \<and> s3 = s2"
      then have "hd (snake s1) \<noteq> apple s" "snake s3 = snake s1" "apple s3 = apple s"
        "score s3 = score s" "randpos s3 = randpos s"
        using sn2 ap2 ap1 sc2 sc1 rp2 rp1 by simp_all
      then show ?thesis by blast
    next
      assume "hd (snake s2) = apple s2 \<and>
           (\<exists>p a i. popped_point s2 = Some p \<and>
                    s3 = s2\<lparr>score := score s2 + 1, snake := snake s2 @ [p], apple := a, randpos := i\<rparr> \<and>
                    a \<notin> set (snake s2 @ [p]) \<and> inBounds hs a)"
      then obtain p a i where h: "hd (snake s2) = apple s2" and p: "popped_point s2 = Some p" and
        s3: "s3 = s2\<lparr>score := score s2 + 1, snake := snake s2 @ [p], apple := a, randpos := i\<rparr>" and
        a: "a \<notin> set (snake s2 @ [p])" "inBounds hs a" by blast
      from p pp2 pp1 have pl: "p = last (snake s)" by simp
      from s3 have f3: "snake s3 = snake s2 @ [p]" "apple s3 = a" "score s3 = score s2 + 1"
        by simp_all
      have "hd (snake s1) = apple s" using h sn2 ap2 ap1 by simp
      moreover have "snake s3 = snake s1 @ [last (snake s)]" using f3(1) sn2 pl by simp
      moreover have "apple s3 \<notin> set (snake s3)" using a(1) f3(1,2) by simp
      moreover have "inBounds hs (apple s3)" using a(2) f3(2) by simp
      moreover have "score s3 = score s + 1" using f3(3) sc2 sc1 by simp
      ultimately show ?thesis by blast
    qed
  qed
  have "popped_point s3 = Some (last (snake s))" using same pp2 pp1 by simp
  moreover have "direction s3 = direction (update_direction k s)" using same dir2 dir1 by simp
  moreover have "death s3 = (death s \<or> ?F)" using same d2 d1 by simp
  ultimately show ?thesis using us ne sn1 tail by blast
qed

lemma alive_steps_elim [consumes 1, case_names moved]:
  assumes "alive_steps hs rnd k s = Some (Inr s3)"
  obtains m where
    "update_snake (update_direction k s) = Some (Inr m)"
    "snake s \<noteq> []"
    "popped_point s3 = Some (last (snake s))"
    "direction s3 = direction (update_direction k s)"
    "death s3 = (death s \<or> px (hd (snake m)) < 0 \<or> py (hd (snake m)) \<le> hs \<or>
                       px (hd (snake m)) \<ge> WIDTH \<or> py (hd (snake m)) \<ge> HEIGHT \<or>
                       \<not> distinct (snake m))"
    "snake m = hd (snake m) # butlast (snake s)"
    "(hd (snake m) \<noteq> apple s \<and> snake s3 = snake m \<and> apple s3 = apple s \<and>
             score s3 = score s \<and> randpos s3 = randpos s) \<or>
            (hd (snake m) = apple s \<and> snake s3 = snake m @ [last (snake s)] \<and>
             apple s3 \<notin> set (snake s3) \<and> inBounds hs (apple s3) \<and> score s3 = score s + 1)"
proof -
  from alive_steps_fields[OF assms] show thesis
    by (elim exE conjE) (rule that; assumption)
qed

lemma alive_steps_no_AttributeError:
  "alive_steps hs rnd k s \<noteq> Some (Inl AttributeError)"
proof
  assume a: "alive_steps hs rnd k s = Some (Inl AttributeError)"
  from a update_snake_not_Attr(1) obtain s1 where
    us: "update_snake (update_direction k s) = Some (Inr s1)" and
    r1: "then_do (check_death hs s1) (check_apple hs rnd) = Some (Inl AttributeError)"
    by (auto simp: alive_steps_def then_do_Inl)
  from r1 check_death_no_AttributeError obtain s2 where
    cd: "check_death hs s1 = Some (Inr s2)" and
    ca: "check_apple hs rnd s2 = Some (Inl AttributeError)"
    by (auto simp: then_do_Inl)
  from us have "popped_point s1 \<noteq> None" by (auto simp: update_snake_Inr)
  with check_death_popped[OF cd] check_apple_AttributeError[OF ca] show False by simp
qed

lemma update_Inr:
  "update hs rnd k s = Some (Inr s') \<longleftrightarrow>
     \<not> KEY_Q k \<and>
     (\<exists>s1 s2. (if \<not> death s then alive_steps hs rnd k s else Some (Inr s)) = Some (Inr s1) \<and>
              (if KEY_R k then reset hs rnd s1 else Some (Inr s1)) = Some (Inr s2) \<and>
              (if KEY_T k then debug_growth s2 else Some (Inr s2)) = Some (Inr s'))"
  unfolding update_def then_do_Inr by (cases "KEY_Q k") (simp_all add: then_do_Inr)

text \<open>
  The three phases of a tick that returns.
\<close>

lemma update_phases:
  assumes "update hs rnd k s = Some (Inr s')"
  obtains s1 s2 where
    "\<not> KEY_Q k"
    "if death s then s1 = s else alive_steps hs rnd k s = Some (Inr s1)"
    "if KEY_R k then reset hs rnd s1 = Some (Inr s2) else s2 = s1"
    "if KEY_T k then debug_growth s2 = Some (Inr s') else s' = s2"
proof -
  from assms obtain s1 s2 where q: "\<not> KEY_Q k" and
    a: "(if \<not> death s then alive_steps hs rnd k s else Some (Inr s)) = Some (Inr s1)" and
    b: "(if KEY_R k then reset hs rnd s1 else Some (Inr s1)) = Some (Inr s2)" and
    c: "(if KEY_T k then debug_growth s2 else Some (Inr s2)) = Some (Inr s')"
    by (auto simp: update_Inr)
  have "if death s then s1 = s else alive_steps hs rnd k s = Some (Inr s1)"
    using a by (auto split: if_splits)
  moreover have "if KEY_R k then reset hs rnd s1 = Some (Inr s2) else s2 = s1"
    using b by (auto split: if_splits)
  moreover have "if KEY_T k then debug_growth s2 = Some (Inr s') else s' = s2"
    using c by (auto split: if_splits)
  ultimately show ?thesis using q that by blast
qed

lemma dead_tick:
  assumes "death s" and "\<not> KEY_Q k" and "\<not> KEY_R k"
  shows "update hs rnd k s = (if KEY_T k then debug_growth s else Some (Inr s))"
  using assms by (simp add: update_def then_do_simps)

lemma play_Inr:
  "play hs rnd seed ks = Some (Inr s) \<longleftrightarrow>
     (\<exists>s0. new_game hs rnd seed = Some (Inr s0) \<and> run hs rnd ks s0 = Some (Inr s))"
  by (simp add: play_def then_do_Inr)

text \<open>
  A property that every tick preserves holds after every run.
\<close>

lemma run_preserves:
  assumes step: "\<And>k s s'. P k \<Longrightarrow> I s \<Longrightarrow> update hs rnd k s = Some (Inr s') \<Longrightarrow> I s'"
  shows "I s \<Longrightarrow> \<forall>k\<in>set ks. P k \<Longrightarrow> run hs rnd ks s = Some (Inr s') \<Longrightarrow> I s'"
proof (induction ks arbitrary: s)
  case Nil
  then show ?case by simp
next
  case (Cons k ks)
  from Cons.prems(3) obtain s1 where
    u: "update hs rnd k s = Some (Inr s1)" and r: "run hs rnd ks s1 = Some (Inr s')"
    by (auto simp: then_do_Inr)
  from Cons.prems(2) have "P k" and rest: "\<forall>k\<in>set ks. P k" by simp_all
  from step[OF \<open>P k\<close> Cons.prems(1) u] have "I s1" .
  from Cons.IH[OF this rest r] show ?case .
qed

section \<open>Invariants\<close>

subsection \<open>The popped coordinate is there when it is read\<close>

lemma ready_step:
  assumes "ready s" and "update hs rnd k s = Some (Inr s')"
  shows "ready s'"
proof -
  from assms(2) obtain s1 s2 where
    p1: "if death s then s1 = s else alive_steps hs rnd k s = Some (Inr s1)" and
    p2: "if KEY_R k then reset hs rnd s1 = Some (Inr s2) else s2 = s1" and
    p3: "if KEY_T k then debug_growth s2 = Some (Inr s') else s' = s2"
    by (rule update_phases)
  have r1: "snake s1 \<noteq> [] \<and> popped_point s1 \<noteq> None"
  proof (cases "death s")
    case True
    with p1 assms(1) show ?thesis by (simp add: ready_def)
  next
    case False
    with p1 have "alive_steps hs rnd k s = Some (Inr s1)" by simp
    from alive_steps_fields[OF this] show ?thesis by auto
  qed
  have r2: "snake s2 \<noteq> [] \<and> popped_point s2 \<noteq> None"
  proof (cases "KEY_R k")
    case True
    with p2 have "reset hs rnd s1 = Some (Inr s2)" by simp
    from reset_Inr[OF this] r1 show ?thesis by auto
  next
    case False
    with p2 r1 show ?thesis by simp
  qed
  have "snake s' \<noteq> [] \<and> popped_point s' \<noteq> None"
  proof (cases "KEY_T k")
    case True
    with p3 have "debug_growth s2 = Some (Inr s')" by simp
    with r2 show ?thesis by (auto simp: debug_growth_Inr)
  next
    case False
    with p3 r2 show ?thesis by simp
  qed
  then show ?thesis by (simp add: ready_def)
qed

lemma ready_play:
  assumes "play hs rnd seed ks = Some (Inr s)"
  shows "ready s"
proof -
  from assms(1) obtain s0 where n: "new_game hs rnd seed = Some (Inr s0)"
    and r: "run hs rnd ks s0 = Some (Inr s)" by (auto simp: play_Inr)
  from new_game_Inr[OF n] have "ready s0" by (simp add: ready_def)
  from run_preserves[where P = "\<lambda>k. True" and I = ready, OF ready_step this _ r]
  show ?thesis by simp
qed

lemma phases_popped:
  assumes "ready s"
    and p1: "(if \<not> death s then alive_steps hs rnd k s else Some (Inr s)) = Some (Inr s1)"
    and p2: "(if KEY_R k then reset hs rnd s1 else Some (Inr s1)) = Some (Inr s2)"
  shows "snake s2 \<noteq> [] \<and> popped_point s2 \<noteq> None"
proof -
  have r1: "snake s1 \<noteq> [] \<and> popped_point s1 \<noteq> None"
  proof (cases "death s")
    case True
    with p1 assms(1) show ?thesis by (simp add: ready_def)
  next
    case False
    with p1 have "alive_steps hs rnd k s = Some (Inr s1)" by simp
    from alive_steps_fields[OF this] show ?thesis by auto
  qed
  show ?thesis
  proof (cases "KEY_R k")
    case True
    with p2 have "reset hs rnd s1 = Some (Inr s2)" by simp
    from reset_Inr[OF this] r1 show ?thesis by auto
  next
    case False
    with p2 r1 show ?thesis by simp
  qed
qed

lemma update_no_AttributeError:
  assumes "ready s"
  shows "update hs rnd k s \<noteq> Some (Inl AttributeError)"
proof
  assume u: "update hs rnd k s = Some (Inl AttributeError)"
  have p1: "(if \<not> death s then alive_steps hs rnd k s else Some (Inr s)) \<noteq> Some (Inl AttributeError)"
    using alive_steps_no_AttributeError by simp
  from u have "(if \<not> death s then alive_steps hs rnd k s else Some (Inr s)) = Some (Inl AttributeError) \<or>
     (\<exists>s1. (if \<not> death s then alive_steps hs rnd k s else Some (Inr s)) = Some (Inr s1) \<and>
       (if KEY_Q k then Some (Inl Quit)
        else then_do (if KEY_R k then reset hs rnd s1 else Some (Inr s1))
               (\<lambda>s2. if KEY_T k then debug_growth s2 else Some (Inr s2))) = Some (Inl AttributeError))"
    by (simp only: update_def then_do_Inl)
  with p1 obtain s1 where
    a: "(if \<not> death s then alive_steps hs rnd k s else Some (Inr s)) = Some (Inr s1)" and
    qr: "(if KEY_Q k then Some (Inl Quit)
        else then_do (if KEY_R k then reset hs rnd s1 else Some (Inr s1))
               (\<lambda>s2. if KEY_T k then debug_growth s2 else Some (Inr s2))) = Some (Inl AttributeError)"
    by blast
  from qr have q: "\<not> KEY_Q k" by (cases "KEY_Q k") simp_all
  with qr have rest: "then_do (if KEY_R k then reset hs rnd s1 else Some (Inr s1))
             (\<lambda>s2. if KEY_T k then debug_growth s2 else Some (Inr s2)) = Some (Inl AttributeError)"
    by simp
  have p2: "(if KEY_R k then reset hs rnd s1 else Some (Inr s1)) \<noteq> Some (Inl AttributeError)"
    using reset_no_AttributeError by simp
  from rest have "(if KEY_R k then reset hs rnd s1 else Some (Inr s1)) = Some (Inl AttributeError) \<or>
     (\<exists>s2. (if KEY_R k then reset hs rnd s1 else Some (Inr s1)) = Some (Inr s2) \<and>
        (if KEY_T k then debug_growth s2 else Some (Inr s2)) = Some (Inl AttributeError))"
    by (simp only: then_do_Inl)
  with p2 obtain s2 where
    b: "(if KEY_R k then reset hs rnd s1 else Some (Inr s1)) = Some (Inr s2)" and
    c: "(if KEY_T k then debug_growth s2 else Some (Inr s2)) = Some (Inl AttributeError)"
    by blast
  from phases_popped[OF assms a b] have "popped_point s2 \<noteq> None" by simp
  with c show False by (auto simp: debug_growth_def split: if_splits option.splits)
qed

lemma run_no_AttributeError:
  "ready s \<Longrightarrow> run hs rnd ks s \<noteq> Some (Inl AttributeError)"
proof (induction ks arbitrary: s)
  case Nil
  then show ?case by simp
next
  case (Cons k ks)
  show ?case
  proof
    assume "run hs rnd (k # ks) s = Some (Inl AttributeError)"
    with update_no_AttributeError[OF Cons.prems] obtain s1 where
      u: "update hs rnd k s = Some (Inr s1)" and r: "run hs rnd ks s1 = Some (Inl AttributeError)"
      by (auto simp: then_do_Inl)
    from ready_step[OF Cons.prems u] have "ready s1" .
    from Cons.IH[OF this] r show False by simp
  qed
qed

lemma play_no_AttributeError: "play hs rnd seed ks \<noteq> Some (Inl AttributeError)"
proof
  assume "play hs rnd seed ks = Some (Inl AttributeError)"
  with reset_no_AttributeError obtain s0 where
    n: "new_game hs rnd seed = Some (Inr s0)" and r: "run hs rnd ks s0 = Some (Inl AttributeError)"
    by (auto simp: play_def then_do_Inl new_game_def)
  from new_game_Inr[OF n] have "ready s0" by (simp add: ready_def)
  from run_no_AttributeError[OF this] r show False by simp
qed

subsection \<open>The apple stays off the snake\<close>

lemma apple_off_step:
  assumes inv: "apple_off s" and keys: "\<not> (KEY_R k \<and> KEY_T k)"
    and u: "update hs rnd k s = Some (Inr s')"
  shows "apple_off s'"
proof -
  from u obtain s1 s2 where
    p1: "if death s then s1 = s else alive_steps hs rnd k s = Some (Inr s1)" and
    p2: "if KEY_R k then reset hs rnd s1 = Some (Inr s2) else s2 = s1" and
    p3: "if KEY_T k then debug_growth s2 = Some (Inr s') else s' = s2"
    by (rule update_phases)
  have q1: "snake s1 \<noteq> [] \<and> apple s1 \<notin> set (snake s1) \<and>
            (\<exists>p. popped_point s1 = Some p \<and> p \<noteq> apple s1)" if "\<not> KEY_R k"
  proof (cases "death s")
    case True
    with p1 inv show ?thesis by (simp add: apple_off_def)
  next
    case False
    with p1 have a: "alive_steps hs rnd k s = Some (Inr s1)" by simp
    from a show ?thesis
    proof (cases rule: alive_steps_elim)
      case (moved m)
      note ne = moved(2) and pp = moved(3) and m = moved(6) and cases = moved(7)
    from inv have off: "apple s \<notin> set (snake s)" by (simp add: apple_off_def)
    from ne have last_in: "last (snake s) \<in> set (snake s)" by simp
    from cases show ?thesis
    proof
      assume c: "hd (snake m) \<noteq> apple s \<and> snake s1 = snake m \<and> apple s1 = apple s \<and>
             score s1 = score s \<and> randpos s1 = randpos s"
      have "apple s \<notin> set (butlast (snake s))" using off by (meson in_set_butlastD)
      with c m have "apple s1 \<notin> set (snake s1)" by (metis set_ConsD)
      moreover have "last (snake s) \<noteq> apple s1" using c off last_in by auto
      moreover have "snake s1 \<noteq> []" using c m by auto
      ultimately show ?thesis using pp by simp
    next
      assume c: "hd (snake m) = apple s \<and> snake s1 = snake m @ [last (snake s)] \<and>
             apple s1 \<notin> set (snake s1) \<and> inBounds hs (apple s1) \<and> score s1 = score s + 1"
      then have "last (snake s) \<noteq> apple s1" by auto
      with c pp show ?thesis by auto
    qed
    qed
  qed
  show ?thesis
  proof (cases "KEY_R k")
    case True
    with keys have nt: "\<not> KEY_T k" by simp
    from True p2 have "reset hs rnd s1 = Some (Inr s2)" by simp
    from reset_Inr[OF this] have "snake s2 = [START hs] \<and> apple s2 \<noteq> START hs \<and> \<not> death s2"
      by auto
    moreover from nt p3 have "s' = s2" by simp
    ultimately show ?thesis by (simp add: apple_off_def)
  next
    case False
    with p2 have s2: "s2 = s1" by simp
    from q1[OF False] obtain p where
      a: "snake s1 \<noteq> []" "apple s1 \<notin> set (snake s1)" "popped_point s1 = Some p" "p \<noteq> apple s1"
      by blast
    show ?thesis
    proof (cases "KEY_T k")
      case True
      with p3 s2 have "debug_growth s1 = Some (Inr s')" by simp
      with a(3) have "s' = s1\<lparr>snake := snake s1 @ [p], score := score s1 + 1\<rparr>"
        by (simp add: debug_growth_Inr)
      with a show ?thesis by (auto simp: apple_off_def)
    next
      case False
      with p3 s2 have "s' = s1" by simp
      with a show ?thesis by (simp add: apple_off_def)
    qed
  qed
qed

lemma apple_off_play:
  assumes "play hs rnd seed ks = Some (Inr s)" and "\<forall>k\<in>set ks. \<not> (KEY_R k \<and> KEY_T k)"
  shows "apple_off s"
proof -
  from assms(1) obtain s0 where n: "new_game hs rnd seed = Some (Inr s0)"
    and r: "run hs rnd ks s0 = Some (Inr s)" by (auto simp: play_Inr)
  from new_game_Inr[OF n] have "apple_off s0" by (simp add: apple_off_def)
  from run_preserves[where P = "\<lambda>k. \<not> (KEY_R k \<and> KEY_T k)" and I = apple_off,
      OF apple_off_step this assms(2) r]
  show ?thesis .
qed

subsection \<open>The apple is in the playable rectangle and off the body before the tail\<close>

lemma tidy_step:
  assumes inv: "tidy hs s" and u: "update hs rnd k s = Some (Inr s')"
  shows "tidy hs s'"
proof -
  from u obtain s1 s2 where
    p1: "if death s then s1 = s else alive_steps hs rnd k s = Some (Inr s1)" and
    p2: "if KEY_R k then reset hs rnd s1 = Some (Inr s2) else s2 = s1" and
    p3: "if KEY_T k then debug_growth s2 = Some (Inr s') else s' = s2"
    by (rule update_phases)
  have q1: "snake s1 \<noteq> [] \<and> inBounds hs (apple s1) \<and>
            (if death s then death s1 else apple s1 \<notin> set (snake s1))"
  proof (cases "death s")
    case True
    with p1 inv show ?thesis by (simp add: tidy_def)
  next
    case False
    with p1 have a: "alive_steps hs rnd k s = Some (Inr s1)" by simp
    from a show ?thesis
    proof (cases rule: alive_steps_elim)
      case (moved m)
      note m = moved(6) and cases = moved(7)
    from inv False have off: "apple s \<notin> set (butlast (snake s))" and ib: "inBounds hs (apple s)"
      by (simp_all add: tidy_def)
    from cases show ?thesis
    proof
      assume c: "hd (snake m) \<noteq> apple s \<and> snake s1 = snake m \<and> apple s1 = apple s \<and>
             score s1 = score s \<and> randpos s1 = randpos s"
      with m off have "apple s1 \<notin> set (snake s1)" by (metis set_ConsD)
      moreover have "snake s1 \<noteq> []" using c m by auto
      ultimately show ?thesis using False ib c by simp
    next
      assume c: "hd (snake m) = apple s \<and> snake s1 = snake m @ [last (snake s)] \<and>
             apple s1 \<notin> set (snake s1) \<and> inBounds hs (apple s1) \<and> score s1 = score s + 1"
      then show ?thesis using False by auto
    qed
    qed
  qed
  have q2: "snake s2 \<noteq> [] \<and> inBounds hs (apple s2) \<and>
            (if death s \<and> \<not> KEY_R k then death s2 else apple s2 \<notin> set (snake s2))"
  proof (cases "KEY_R k")
    case True
    with p2 have "reset hs rnd s1 = Some (Inr s2)" by simp
    from reset_Inr[OF this] True show ?thesis by auto
  next
    case False
    with p2 q1 show ?thesis by simp
  qed
  show ?thesis
  proof (cases "KEY_T k")
    case True
    with p3 have "debug_growth s2 = Some (Inr s')" by simp
    then obtain p where "s' = s2\<lparr>snake := snake s2 @ [p], score := score s2 + 1\<rparr>"
      by (auto simp: debug_growth_Inr)
    with q2 show ?thesis by (auto simp: tidy_def split: if_splits)
  next
    case False
    with p3 have "s' = s2" by simp
    with q2 show ?thesis by (auto simp: tidy_def split: if_splits dest: in_set_butlastD)
  qed
qed

lemma tidy_play:
  assumes "play hs rnd seed ks = Some (Inr s)"
  shows "tidy hs s"
proof -
  from assms(1) obtain s0 where n: "new_game hs rnd seed = Some (Inr s0)"
    and r: "run hs rnd ks s0 = Some (Inr s)" by (auto simp: play_Inr)
  from new_game_Inr[OF n] have "tidy hs s0" by (simp add: tidy_def)
  from run_preserves[where P = "\<lambda>k. True" and I = "tidy hs", OF tidy_step this _ r]
  show ?thesis by simp
qed

subsection \<open>The direction is one of the four constants\<close>

lemma direction_step:
  assumes inv: "direction s \<in> {UP, DOWN, LEFT, RIGHT}"
    and u: "update hs rnd k s = Some (Inr s')"
  shows "direction s' \<in> {UP, DOWN, LEFT, RIGHT}"
proof -
  from u obtain s1 s2 where
    p1: "if death s then s1 = s else alive_steps hs rnd k s = Some (Inr s1)" and
    p2: "if KEY_R k then reset hs rnd s1 = Some (Inr s2) else s2 = s1" and
    p3: "if KEY_T k then debug_growth s2 = Some (Inr s') else s' = s2"
    by (rule update_phases)
  have d1: "direction s1 \<in> {UP, DOWN, LEFT, RIGHT}"
  proof (cases "death s")
    case True
    with p1 inv show ?thesis by simp
  next
    case False
    with p1 have "alive_steps hs rnd k s = Some (Inr s1)" by simp
    then show ?thesis
    proof (cases rule: alive_steps_elim)
      case (moved m)
      from moved(4) update_direction_constants[OF inv] show ?thesis by simp
    qed
  qed
  have d2: "direction s2 \<in> {UP, DOWN, LEFT, RIGHT}"
  proof (cases "KEY_R k")
    case True
    with p2 have "reset hs rnd s1 = Some (Inr s2)" by simp
    from reset_Inr[OF this] show ?thesis by auto
  next
    case False
    with p2 d1 show ?thesis by simp
  qed
  show ?thesis
  proof (cases "KEY_T k")
    case True
    with p3 have "debug_growth s2 = Some (Inr s')" by simp
    with d2 show ?thesis by (auto simp: debug_growth_Inr)
  next
    case False
    with p3 d2 show ?thesis by simp
  qed
qed

text \<open>
  On every state the game reaches, the direction is one of the four module constants:
  the hypothesis of the two theorems on the direction update.
\<close>

lemma direction_play:
  assumes "play hs rnd seed ks = Some (Inr s)"
  shows "direction s \<in> {UP, DOWN, LEFT, RIGHT}"
proof -
  from assms(1) obtain s0 where n: "new_game hs rnd seed = Some (Inr s0)"
    and r: "run hs rnd ks s0 = Some (Inr s)" by (auto simp: play_Inr)
  from new_game_Inr[OF n] have "direction s0 \<in> {UP, DOWN, LEFT, RIGHT}" by simp
  from run_preserves[where P = "\<lambda>k. True" and I = "\<lambda>s. direction s \<in> {UP, DOWN, LEFT, RIGHT}",
      OF direction_step this _ r]
  show ?thesis by simp
qed

subsection \<open>A dead game\<close>

lemma dead_run:
  "death s \<Longrightarrow> popped_point s = Some p \<Longrightarrow> \<forall>k\<in>set ks. \<not> KEY_Q k \<and> \<not> KEY_R k \<Longrightarrow>
   run hs rnd ks s =
     Some (Inr (s\<lparr>snake := snake s @ replicate (length (filter KEY_T ks)) p,
                  score := score s + int (length (filter KEY_T ks))\<rparr>))"
proof (induction ks arbitrary: s)
  case Nil
  then show ?case by simp
next
  case (Cons k ks)
  from Cons.prems(3) have q: "\<not> KEY_Q k" "\<not> KEY_R k"
    and rest: "\<forall>k\<in>set ks. \<not> KEY_Q k \<and> \<not> KEY_R k" by simp_all
  show ?case
  proof (cases "KEY_T k")
    case False
    with dead_tick[OF Cons.prems(1) q] have "update hs rnd k s = Some (Inr s)" by simp
    with Cons.IH[OF Cons.prems(1,2) rest] False show ?thesis by (simp add: then_do_simps)
  next
    case True
    let ?s1 = "s\<lparr>snake := snake s @ [p], score := score s + 1\<rparr>"
    from True dead_tick[OF Cons.prems(1) q] Cons.prems(2)
    have u: "update hs rnd k s = Some (Inr ?s1)" by (simp add: debug_growth_def)
    have "death ?s1" "popped_point ?s1 = Some p" using Cons.prems by simp_all
    from Cons.IH[OF this rest] u True show ?thesis
      by (simp add: then_do_simps replicate_append_same)
  qed
qed

section \<open>The examples, evaluated\<close>

lemmas eval_simps = update_def alive_steps_def update_snake_def update_direction_def
  check_death_def check_apple_def generate_apple_def reset_def debug_growth_def
  death_event_def then_do_simps apple_loop_free apple_loop_taken
  UP_def DOWN_def LEFT_def RIGHT_def WIDTH_def HEIGHT_def START_def Let_def

lemmas const_defs = UP_def DOWN_def LEFT_def RIGHT_def WIDTH_def HEIGHT_def START_def

lemmas dir_defs = UP_def DOWN_def LEFT_def RIGHT_def

lemmas key_defs = no_keys_def keys_up_def keys_T_def keys_QR_def keys_RT_def keys_ULR_def

lemma new_game_fresh: "new_game 6 rnd20 0 = Some (Inr fresh)"
  unfolding new_game_def reset_def generate_apple_def
  by (simp add: const_defs then_do_simps apple_loop_free apple_loop_taken rnd20_def fresh_def)

lemma tick_fresh: "update 6 rnd20 no_keys fresh =
    Some (Inr (fresh\<lparr>snake := [Point 6 11], popped_point := Some (Point 5 11)\<rparr>))"
  by (simp add: eval_simps fresh_def key_defs rnd20_def)

lemma play_at_wall:
  "play 6 rnd20 0 [keys_up, no_keys, no_keys, no_keys] = Some (Inr at_wall)"
  unfolding play_def new_game_fresh
  by (simp add: eval_simps fresh_def at_wall_def key_defs rnd20_def)

lemma moved_at_wall:
  "update_snake (update_direction no_keys at_wall) = Some (Inr (dead_wall\<lparr>death := False\<rparr>))"
  by (simp add: eval_simps at_wall_def dead_wall_def key_defs)

lemma moved_at_wall_T:
  "update_snake (update_direction keys_T at_wall) = Some (Inr (dead_wall\<lparr>death := False\<rparr>))"
  by (simp add: eval_simps at_wall_def dead_wall_def key_defs)

lemma tick_at_wall: "update 6 rnd20 no_keys at_wall = Some (Inr dead_wall)"
  by (simp add: eval_simps at_wall_def dead_wall_def key_defs rnd20_def)

lemma tick_at_wall_T: "update 6 rnd20 keys_T at_wall = Some (Inr dead_grown)"
  by (simp add: eval_simps at_wall_def dead_grown_def key_defs rnd20_def)

lemma play_dead_wall:
  "play 6 rnd20 0 [keys_up, no_keys, no_keys, no_keys, no_keys] = Some (Inr dead_wall)"
  unfolding play_def new_game_fresh
  by (simp add: eval_simps fresh_def dead_wall_def key_defs rnd20_def)

lemma tick_dead_T: "update 6 rnd20 keys_T dead_wall = Some (Inr dead_grown)"
  by (simp add: eval_simps dead_wall_def dead_grown_def key_defs rnd20_def)

lemma play_dead_grown:
  "play 6 rnd20 0 [keys_up, no_keys, no_keys, no_keys, no_keys, keys_T] = Some (Inr dead_grown)"
  unfolding play_def new_game_fresh
  by (simp add: eval_simps fresh_def dead_grown_def key_defs rnd20_def)

lemma tick_QR: "update 6 rnd20 keys_QR fresh = Some (Inl Quit)"
  by (simp add: eval_simps fresh_def key_defs rnd20_def)

lemma new_game_near: "new_game 6 rnd_near 0 = Some (Inr near)"
  unfolding new_game_def reset_def generate_apple_def
  by (simp add: const_defs then_do_simps apple_loop_free apple_loop_taken rnd_near_def near_def)

lemma tick_near_T: "update 6 rnd_near keys_T near = Some (Inr near_eaten)"
  by (simp add: eval_simps near_def near_eaten_def key_defs rnd_near_def)

lemma new_game_stale: "new_game 6 rnd_stale 0 = Some (Inr fresh)"
  unfolding new_game_def reset_def generate_apple_def
  by (simp add: const_defs then_do_simps apple_loop_free apple_loop_taken rnd_stale_def fresh_def)

lemma play_stale: "play 6 rnd_stale 0 [no_keys, keys_RT] = Some (Inr stale)"
  unfolding play_def new_game_stale
  by (simp add: eval_simps fresh_def stale_def key_defs rnd_stale_def)

section \<open>The claims\<close>

subsection \<open>C1: death after the movement step\<close>

text \<open>
  C1. On a tick taken while alive, after the movement step the game becomes dead if and
  only if the new head is outside the playable rectangle (\<open>x < 0\<close>, \<open>x \<ge> WIDTH\<close>,
  \<open>y \<le> HEIGHT_SCORE\<close> or \<open>y \<ge> HEIGHT\<close>) or the body holds two equal coordinates; a head
  in the score bar dies. \<open>s1\<close> is the game after the direction update and the movement;
  \<open>check_death\<close> sets the flag to exactly that condition, and a tick without reset
  ends with that flag.
\<close>

theorem death_iff_fatal:
  assumes "\<not> death s"
    and "update_snake (update_direction k s) = Some (Inr s1)"
  shows "check_death hs s1 =
           Some (Inr (s1\<lparr>death :=
              (px (hd (snake s1)) < 0 \<or> px (hd (snake s1)) \<ge> WIDTH \<or>
               py (hd (snake s1)) \<le> hs \<or> py (hd (snake s1)) \<ge> HEIGHT \<or>
               \<not> distinct (snake s1))\<rparr>)) \<and>
         (\<forall>s'. update hs rnd k s = Some (Inr s') \<and> \<not> KEY_R k \<longrightarrow>
            death s' =
              (px (hd (snake s1)) < 0 \<or> px (hd (snake s1)) \<ge> WIDTH \<or>
               py (hd (snake s1)) \<le> hs \<or> py (hd (snake s1)) \<ge> HEIGHT \<or>
               \<not> distinct (snake s1)))"
proof -
  let ?F = "px (hd (snake s1)) < 0 \<or> px (hd (snake s1)) \<ge> WIDTH \<or>
            py (hd (snake s1)) \<le> hs \<or> py (hd (snake s1)) \<ge> HEIGHT \<or> \<not> distinct (snake s1)"
  from assms(2) have ne: "snake s1 \<noteq> []" and d1: "death s1 = False"
    using assms(1) by (auto simp: update_snake_Inr)
  have same: "s1\<lparr>death := False\<rparr> = s1" using d1 by simp
  have cd: "check_death hs s1 = Some (Inr (s1\<lparr>death := ?F\<rparr>))"
  proof (cases ?F)
    case True
    then show ?thesis unfolding check_death_eq[OF ne] by auto
  next
    case False
    then show ?thesis unfolding check_death_eq[OF ne] using same by auto
  qed
  have tick: "death s' = ?F" if u: "update hs rnd k s = Some (Inr s')" and r: "\<not> KEY_R k" for s'
  proof -
    from u assms(1) r obtain s3 where
      a: "alive_steps hs rnd k s = Some (Inr s3)" and
      t: "(if KEY_T k then debug_growth s3 else Some (Inr s3)) = Some (Inr s')"
      by (auto simp: update_Inr)
    from a assms(2) cd have "check_apple hs rnd (s1\<lparr>death := ?F\<rparr>) = Some (Inr s3)"
      by (auto simp: alive_steps_Inr)
    from check_apple_death[OF this] have "death s3 = ?F" by simp
    moreover from t have "death s' = death s3"
      by (auto simp: debug_growth_Inr split: if_splits)
    ultimately show ?thesis by simp
  qed
  from cd tick show ?thesis by blast
qed

text \<open>
  An instance: heading up from (5, 7) with \<open>HEIGHT_SCORE = 6\<close>, the head enters the
  score bar and the game dies.
\<close>

theorem death_iff_fatal_witness:
  "\<not> death at_wall \<and>
   update_snake (update_direction no_keys at_wall) = Some (Inr (dead_wall\<lparr>death := False\<rparr>)) \<and>
   check_death 6 (dead_wall\<lparr>death := False\<rparr>) = Some (Inr dead_wall) \<and>
   update 6 rnd20 no_keys at_wall = Some (Inr dead_wall) \<and> \<not> KEY_R no_keys \<and>
   death dead_wall"
proof -
  have h1: "\<not> death at_wall" by (simp add: at_wall_def)
  note h2 = moved_at_wall
  from death_iff_fatal[OF h1 h2, of 6 rnd20] h1 h2 tick_at_wall show ?thesis
    by (simp add: dead_wall_def no_keys_def WIDTH_def HEIGHT_def)
qed

subsection \<open>C2: the length of the snake over a tick\<close>

text \<open>
  The claim as stated fails: with the apple at (6, 11) and the T key pressed, one tick
  eats the apple and runs the debug growth, and the length goes from 1 to 3.
\<close>

theorem length_jump_counterexample:
  "new_game 6 rnd_near 0 = Some (Inr near) \<and> \<not> death near \<and>
   update 6 rnd_near keys_T near = Some (Inr near_eaten) \<and>
   length (snake near_eaten) = length (snake near) + 2"
  using new_game_near tick_near_T by (simp add: near_def near_eaten_def)

text \<open>
  C2, amended. On a tick taken from an alive state on which reset is not asserted, the
  length after the tick is the length before, plus one if the apple was eaten on that
  tick (the new head \<open>hd (snake m)\<close> is the apple), plus one if the debug-growth command
  fired: unchanged when neither happened, one more when exactly one did, two more when
  both did.
\<close>

theorem length_after_tick:
  assumes "\<not> death s" and "\<not> KEY_R k" and "update hs rnd k s = Some (Inr s')"
  shows "\<exists>m. update_snake (update_direction k s) = Some (Inr m) \<and>
           length (snake s') =
             length (snake s) + (if hd (snake m) = apple s then 1 else 0)
                              + (if KEY_T k then 1 else 0)"
proof -
  from assms(3) obtain s1 s2 where
    p1: "if death s then s1 = s else alive_steps hs rnd k s = Some (Inr s1)" and
    p2: "if KEY_R k then reset hs rnd s1 = Some (Inr s2) else s2 = s1" and
    p3: "if KEY_T k then debug_growth s2 = Some (Inr s') else s' = s2"
    by (rule update_phases)
  from p2 assms(2) have s2: "s2 = s1" by simp
  have t: "length (snake s') = length (snake s1) + (if KEY_T k then 1 else 0)"
  proof (cases "KEY_T k")
    case True
    with p3 s2 have "debug_growth s1 = Some (Inr s')" by simp
    with True show ?thesis by (auto simp: debug_growth_Inr)
  next
    case False
    with p3 s2 show ?thesis by simp
  qed
  from p1 assms(1) have "alive_steps hs rnd k s = Some (Inr s1)" by simp
  then show ?thesis
  proof (cases rule: alive_steps_elim)
    case (moved m)
    from moved(2) have "length (butlast (snake s)) + 1 = length (snake s)"
      by (simp add: Suc_pred)
    with moved(6) have lm: "length (snake m) = length (snake s)"
      by (metis length_Cons Suc_eq_plus1)
    from moved(7) have "length (snake s1) =
        length (snake s) + (if hd (snake m) = apple s then 1 else 0)"
      using lm by auto
    with t moved(1) show ?thesis by auto
  qed
qed

text \<open>
  An instance: the tick of the counterexample, 3 = 1 + 1 + 1.
\<close>

theorem length_after_tick_witness:
  "\<not> death near \<and> \<not> KEY_R keys_T \<and>
   update 6 rnd_near keys_T near = Some (Inr near_eaten) \<and>
   (\<exists>m. update_snake (update_direction keys_T near) = Some (Inr m) \<and>
        length (snake near_eaten) =
          length (snake near) + (if hd (snake m) = apple near then 1 else 0)
                              + (if KEY_T keys_T then 1 else 0))"
proof -
  have h1: "\<not> death near" by (simp add: near_def)
  have h2: "\<not> KEY_R keys_T" by (simp add: key_defs)
  from length_after_tick[OF h1 h2 tick_near_T] h1 h2 tick_near_T show ?thesis by simp
qed

subsection \<open>C3: a fatal move eats no apple\<close>

text \<open>
  The claim as stated fails: \<open>update\<close> runs the handler of the T key on a fatal tick
  as on any other, so the score changes on the tick the snake dies. Heading up from (5, 7)
  with T pressed, the head leaves the playable rectangle and the score goes from 0 to 1.
\<close>

theorem fatal_tick_scores_counterexample:
  "play 6 rnd20 0 [keys_up, no_keys, no_keys, no_keys] = Some (Inr at_wall) \<and>
   \<not> death at_wall \<and>
   update_snake (update_direction keys_T at_wall) = Some (Inr (dead_wall\<lparr>death := False\<rparr>)) \<and>
   \<not> inBounds 6 (hd (snake (dead_wall\<lparr>death := False\<rparr>))) \<and>
   update 6 rnd20 keys_T at_wall = Some (Inr dead_grown) \<and>
   death dead_grown \<and> score dead_grown \<noteq> score at_wall"
  using play_at_wall moved_at_wall_T tick_at_wall_T
  by (simp add: at_wall_def dead_wall_def dead_grown_def inBounds_def)

text \<open>
  C3, amended. In every state the game reaches, on a tick taken while alive whose move is
  fatal (the new head is outside the playable rectangle or equals a coordinate of the rest
  of the body), the four steps of the movement set the death flag and eat no apple: score
  and apple are those before the tick. If neither quit, reset nor debug growth is asserted
  on that tick, this is the state the tick ends in.
\<close>

theorem fatal_move_keeps_apple:
  assumes reach: "play hs rnd seed ks = Some (Inr s)"
    and alive: "\<not> death s"
    and moved: "update_snake (update_direction k s) = Some (Inr m)"
    and fatal: "\<not> inBounds hs (hd (snake m)) \<or> hd (snake m) \<in> set (tl (snake m))"
  shows "alive_steps hs rnd k s = Some (Inr (m\<lparr>death := True\<rparr>)) \<and>
         score m = score s \<and> apple m = apple s \<and>
         (\<not> KEY_Q k \<and> \<not> KEY_R k \<and> \<not> KEY_T k \<longrightarrow>
            update hs rnd k s = Some (Inr (m\<lparr>death := True\<rparr>)))"
proof -
  from tidy_play[OF reach] alive have ib: "inBounds hs (apple s)"
    and off: "apple s \<notin> set (butlast (snake s))" by (simp_all add: tidy_def)
  from moved have ne: "snake s \<noteq> []" and
    m: "m = (update_direction k s)\<lparr>snake := Point (px (hd (snake s)) + px (pt (direction (update_direction k s))))
                          (py (hd (snake s)) + py (pt (direction (update_direction k s)))) # butlast (snake s),
            popped_point := Some (last (snake s))\<rparr>"
    by (simp_all add: update_snake_Inr)
  from m have nem: "snake m \<noteq> []" and tl: "tl (snake m) = butlast (snake s)"
    and am: "apple m = apple s" and sm: "score m = score s"
    by simp_all
  have dup: "hd (snake m) \<in> set (tl (snake m)) \<Longrightarrow> \<not> distinct (snake m)"
    using nem by (cases "snake m") auto
  from fatal dup have F: "px (hd (snake m)) < 0 \<or> py (hd (snake m)) \<le> hs \<or> px (hd (snake m)) \<ge> WIDTH
                   \<or> py (hd (snake m)) \<ge> HEIGHT \<or> \<not> distinct (snake m)"
    by (auto simp: inBounds_def)
  have cd: "check_death hs m = Some (Inr (m\<lparr>death := True\<rparr>))"
    unfolding check_death_eq[OF nem] using F by simp
  from fatal have "hd (snake m) \<noteq> apple s"
  proof
    assume "\<not> inBounds hs (hd (snake m))"
    with ib show ?thesis by auto
  next
    assume "hd (snake m) \<in> set (tl (snake m))"
    with tl off show ?thesis by auto
  qed
  with am nem have ca: "check_apple hs rnd (m\<lparr>death := True\<rparr>) = Some (Inr (m\<lparr>death := True\<rparr>))"
    by (intro check_apple_miss) simp_all
  have a: "alive_steps hs rnd k s = Some (Inr (m\<lparr>death := True\<rparr>))"
    by (simp add: alive_steps_def moved cd ca then_do_simps)
  have "update hs rnd k s = Some (Inr (m\<lparr>death := True\<rparr>))"
    if "\<not> KEY_Q k" "\<not> KEY_R k" "\<not> KEY_T k"
    using that alive by (simp add: update_def a then_do_simps)
  with a sm am show ?thesis by blast
qed

text \<open>
  An instance: heading up from (5, 7) with no key pressed.
\<close>

theorem fatal_move_keeps_apple_witness:
  "play 6 rnd20 0 [keys_up, no_keys, no_keys, no_keys] = Some (Inr at_wall) \<and>
   \<not> death at_wall \<and>
   update_snake (update_direction no_keys at_wall) = Some (Inr (dead_wall\<lparr>death := False\<rparr>)) \<and>
   \<not> inBounds 6 (hd (snake (dead_wall\<lparr>death := False\<rparr>))) \<and>
   \<not> KEY_Q no_keys \<and> \<not> KEY_R no_keys \<and> \<not> KEY_T no_keys \<and>
   alive_steps 6 rnd20 no_keys at_wall = Some (Inr dead_wall) \<and>
   update 6 rnd20 no_keys at_wall = Some (Inr dead_wall) \<and>
   score dead_wall = score at_wall \<and> apple dead_wall = apple at_wall"
proof -
  have h2: "\<not> death at_wall" by (simp add: at_wall_def)
  have h4: "\<not> inBounds 6 (hd (snake (dead_wall\<lparr>death := False\<rparr>))) \<or>
    hd (snake (dead_wall\<lparr>death := False\<rparr>)) \<in> set (tl (snake (dead_wall\<lparr>death := False\<rparr>)))"
    by (simp add: dead_wall_def inBounds_def)
  from fatal_move_keeps_apple[OF play_at_wall h2 moved_at_wall h4] play_at_wall h2 moved_at_wall h4
  show ?thesis by (simp add: dead_wall_def at_wall_def no_keys_def)
qed

subsection \<open>C4: where the apple is placed\<close>

text \<open>
  C4. After every apple placement that returns, the apple is not a member of the
  snake's occupied set and lies in the playable rectangle: \<open>0 \<le> x < WIDTH\<close> and
  \<open>HEIGHT_SCORE < y < HEIGHT\<close>. Every placement is a call of \<open>generate_apple\<close>, the
  last statement of \<open>reset\<close> and of the apple branch of \<open>check_apple\<close>.
\<close>

theorem apple_placement:
  assumes "generate_apple hs rnd s = Some (Inr s')"
  shows "apple s' \<notin> set (snake s') \<and>
         0 \<le> px (apple s') \<and> px (apple s') < WIDTH \<and>
         hs < py (apple s') \<and> py (apple s') < HEIGHT"
  using generate_apple_result[OF assms] by (auto simp: inBounds_def)

text \<open>
  An instance: the placement of \<open>__init__\<close>, with the snake at (5, 11) and the
  apple at (20, 27).
\<close>

theorem apple_placement_witness:
  "generate_apple 6 rnd20 (fresh\<lparr>randpos := 0\<rparr>) = Some (Inr fresh) \<and>
   apple fresh \<notin> set (snake fresh) \<and> 0 \<le> px (apple fresh) \<and> px (apple fresh) < WIDTH \<and>
   6 < py (apple fresh) \<and> py (apple fresh) < HEIGHT"
proof -
  have h: "generate_apple 6 rnd20 (fresh\<lparr>randpos := 0\<rparr>) = Some (Inr fresh)"
    unfolding generate_apple_def
    by (simp add: const_defs then_do_simps apple_loop_free apple_loop_taken rnd20_def fresh_def)
  from apple_placement[OF h] h show ?thesis by simp
qed

subsection \<open>C5: the direction update\<close>

text \<open>
  C5. With the current direction one of the four constants, the direction update takes
  the first of the requested directions, in the order Up, Down, Left, Right, that is not
  the exact opposite of the current direction, and keeps the current direction when there
  is none; nothing else changes, and the result is never the opposite of the direction
  before.
\<close>

theorem direction_update:
  assumes "direction s \<in> {UP, DOWN, LEFT, RIGHT}"
  shows "update_direction k s = s\<lparr>direction := accept_direction k (direction s)\<rparr> \<and>
         pt (accept_direction k (direction s)) \<noteq> opposite (pt (direction s)) \<and>
         accept_direction k (direction s) \<in> {UP, DOWN, LEFT, RIGHT}"
proof -
  have same: "s\<lparr>direction := direction s\<rparr> = s" by simp
  from assms consider "direction s = UP" | "direction s = DOWN"
    | "direction s = LEFT" | "direction s = RIGHT" by blast
  then show ?thesis
  proof cases
    case 1
    then show ?thesis using same
      by (cases "KEY_UP k"; cases "KEY_DOWN k"; cases "KEY_LEFT k"; cases "KEY_RIGHT k")
         (simp_all add: update_direction_def accept_direction_def requested_def opposite_def dir_defs)
  next
    case 2
    then show ?thesis using same
      by (cases "KEY_UP k"; cases "KEY_DOWN k"; cases "KEY_LEFT k"; cases "KEY_RIGHT k")
         (simp_all add: update_direction_def accept_direction_def requested_def opposite_def dir_defs)
  next
    case 3
    then show ?thesis using same
      by (cases "KEY_UP k"; cases "KEY_DOWN k"; cases "KEY_LEFT k"; cases "KEY_RIGHT k")
         (simp_all add: update_direction_def accept_direction_def requested_def opposite_def dir_defs)
  next
    case 4
    then show ?thesis using same
      by (cases "KEY_UP k"; cases "KEY_DOWN k"; cases "KEY_LEFT k"; cases "KEY_RIGHT k")
         (simp_all add: update_direction_def accept_direction_def requested_def opposite_def dir_defs)
  qed
qed

text \<open>
  An instance: heading down with Up, Left and Right held, Up is refused and Left is
  taken.
\<close>

theorem direction_update_witness:
  "direction (fresh\<lparr>direction := DOWN\<rparr>) \<in> {UP, DOWN, LEFT, RIGHT} \<and>
   update_direction keys_ULR (fresh\<lparr>direction := DOWN\<rparr>) = fresh\<lparr>direction := LEFT\<rparr> \<and>
   accept_direction keys_ULR DOWN = LEFT \<and> pt LEFT \<noteq> opposite (pt DOWN)"
proof -
  have h: "direction (fresh\<lparr>direction := DOWN\<rparr>) \<in> {UP, DOWN, LEFT, RIGHT}" by simp
  have a: "accept_direction keys_ULR DOWN = LEFT"
    by (simp add: accept_direction_def requested_def opposite_def key_defs dir_defs)
  from direction_update[OF h, of keys_ULR] h a show ?thesis by simp
qed

subsection \<open>C6: a dead game\<close>

text \<open>
  The claim as stated fails: the handler of the T key runs while dead too. On the dead
  game in the score bar, a tick with T pressed appends the popped coordinate (5, 7) and
  adds one to the score.
\<close>

theorem dead_still_grows_counterexample:
  "play 6 rnd20 0 [keys_up, no_keys, no_keys, no_keys, no_keys] = Some (Inr dead_wall) \<and>
   death dead_wall \<and> \<not> KEY_R keys_T \<and>
   update 6 rnd20 keys_T dead_wall = Some (Inr dead_grown) \<and>
   snake dead_grown \<noteq> snake dead_wall \<and> score dead_grown \<noteq> score dead_wall"
  using play_dead_wall tick_dead_T by (simp add: dead_wall_def dead_grown_def key_defs)

text \<open>
  C6, amended. Once the game has died, over any number of ticks without reset and
  without quit the game stays dead and the apple coordinate, like every attribute other
  than body and score, keeps its value; body and score keep theirs on the ticks on which
  the debug-growth command does not fire, and each tick on which it fires appends the
  stored popped coordinate to the body and adds one to the score.
\<close>

theorem dead_until_reset:
  assumes reach: "play hs rnd seed ks0 = Some (Inr s)"
    and dead: "death s"
    and keys: "\<forall>k\<in>set ks. \<not> KEY_Q k \<and> \<not> KEY_R k"
  shows "\<exists>p. popped_point s = Some p \<and>
           run hs rnd ks s =
             Some (Inr (s\<lparr>snake := snake s @ replicate (length (filter KEY_T ks)) p,
                          score := score s + int (length (filter KEY_T ks))\<rparr>))"
proof -
  from ready_play[OF reach] dead obtain p where p: "popped_point s = Some p"
    by (auto simp: ready_def)
  from dead_run[OF dead p keys] p show ?thesis by blast
qed

text \<open>
  An instance: three ticks on the dead game, T pressed on the second.
\<close>

theorem dead_until_reset_witness:
  "play 6 rnd20 0 [keys_up, no_keys, no_keys, no_keys, no_keys] = Some (Inr dead_wall) \<and>
   death dead_wall \<and>
   \<not> KEY_Q no_keys \<and> \<not> KEY_R no_keys \<and> \<not> KEY_Q keys_T \<and> \<not> KEY_R keys_T \<and>
   popped_point dead_wall = Some (Point 5 7) \<and>
   run 6 rnd20 [no_keys, keys_T, no_keys] dead_wall = Some (Inr dead_grown)"
proof -
  have h2: "death dead_wall" by (simp add: dead_wall_def)
  have h3: "\<forall>k\<in>set [no_keys, keys_T, no_keys]. \<not> KEY_Q k \<and> \<not> KEY_R k"
    by (simp add: key_defs)
  from dead_until_reset[OF play_dead_wall h2 h3] play_dead_wall h2 h3 show ?thesis
    by (simp add: dead_wall_def dead_grown_def key_defs)
qed

subsection \<open>C7: quit and reset on the same tick\<close>

text \<open>
  The claim as stated fails: \<open>update\<close> tests the Q key before the R key, and
  \<open>pyxel.quit()\<close> ends the process, so with both asserted the tick quits.
\<close>

theorem quit_beats_reset_counterexample:
  "new_game 6 rnd20 0 = Some (Inr fresh) \<and> KEY_Q keys_QR \<and> KEY_R keys_QR \<and>
   update 6 rnd20 keys_QR fresh = Some (Inl Quit)"
  using new_game_fresh tick_QR by (simp add: key_defs)

text \<open>
  C7, amended. If quit is asserted on a tick, with or without reset, quit wins: no such
  tick ends in a game state; a dead game quits at once, and an alive game quits when its
  movement steps have returned. The reset is not performed.
\<close>

theorem quit_wins:
  assumes "KEY_Q k"
  shows "(\<forall>s'. update hs rnd k s \<noteq> Some (Inr s')) \<and>
         (death s \<longrightarrow> update hs rnd k s = Some (Inl Quit)) \<and>
         (\<forall>s1. alive_steps hs rnd k s = Some (Inr s1) \<longrightarrow> update hs rnd k s = Some (Inl Quit))"
proof -
  have "update hs rnd k s \<noteq> Some (Inr s')" for s'
    using assms by (simp add: update_Inr)
  moreover have "death s \<Longrightarrow> update hs rnd k s = Some (Inl Quit)"
    using assms by (simp add: update_def then_do_simps)
  moreover have "update hs rnd k s = Some (Inl Quit)" if "alive_steps hs rnd k s = Some (Inr s1)" for s1
    using assms that by (cases "death s") (simp_all add: update_def then_do_simps)
  ultimately show ?thesis by blast
qed

text \<open>
  An instance: Q and R together, on the dead game and on the fresh one.
\<close>

theorem quit_wins_witness:
  "KEY_Q keys_QR \<and> death dead_wall \<and>
   update 6 rnd20 keys_QR dead_wall = Some (Inl Quit) \<and>
   alive_steps 6 rnd20 keys_QR fresh =
     Some (Inr (fresh\<lparr>snake := [Point 6 11], popped_point := Some (Point 5 11)\<rparr>)) \<and>
   update 6 rnd20 keys_QR fresh = Some (Inl Quit)"
proof -
  have h: "KEY_Q keys_QR" by (simp add: key_defs)
  have d: "death dead_wall" by (simp add: dead_wall_def)
  have a: "alive_steps 6 rnd20 keys_QR fresh =
     Some (Inr (fresh\<lparr>snake := [Point 6 11], popped_point := Some (Point 5 11)\<rparr>))"
    by (simp add: eval_simps fresh_def key_defs)
  from quit_wins[OF h, of 6 rnd20 dead_wall] quit_wins[OF h, of 6 rnd20 fresh] h d a
  show ?thesis by simp
qed

subsection \<open>C8: identity against equality\<close>

text \<open>
  C8. With the current direction one of the four constants, the direction update that
  compares by identity (\<open>update_direction\<close>, from the source) and the one that compares
  by value (\<open>update_direction_eq\<close>, from the specification) give the same result for
  every combination of held keys.
\<close>

theorem identity_is_equality:
  assumes "direction s \<in> {UP, DOWN, LEFT, RIGHT}"
  shows "update_direction_eq k s = update_direction k s"
proof -
  from assms consider "direction s = UP" | "direction s = DOWN"
    | "direction s = LEFT" | "direction s = RIGHT" by blast
  then show ?thesis
    by cases (simp_all add: update_direction_def update_direction_eq_def dir_defs)
qed

text \<open>
  An instance: heading down with Up, Left and Right held.
\<close>

theorem identity_is_equality_witness:
  "direction (fresh\<lparr>direction := DOWN\<rparr>) \<in> {UP, DOWN, LEFT, RIGHT} \<and>
   update_direction_eq keys_ULR (fresh\<lparr>direction := DOWN\<rparr>) = fresh\<lparr>direction := LEFT\<rparr> \<and>
   update_direction keys_ULR (fresh\<lparr>direction := DOWN\<rparr>) = fresh\<lparr>direction := LEFT\<rparr>"
proof -
  have h: "direction (fresh\<lparr>direction := DOWN\<rparr>) \<in> {UP, DOWN, LEFT, RIGHT}" by simp
  have u: "update_direction keys_ULR (fresh\<lparr>direction := DOWN\<rparr>) = fresh\<lparr>direction := LEFT\<rparr>"
    by (simp add: update_direction_def key_defs dir_defs)
  from identity_is_equality[OF h, of keys_ULR] h u show ?thesis by simp
qed

subsection \<open>C9: the apple is never on the snake\<close>

text \<open>
  The claim as stated fails: \<open>reset\<close> does not clear \<open>popped_point\<close>, so a tick
  with R and T pressed together appends a coordinate popped before the reset, where the
  new apple may be. After one quiet tick and one such tick the game is alive with the
  apple at (6, 11), a cell of the snake.
\<close>

theorem apple_under_snake_counterexample:
  "play 6 rnd_stale 0 [no_keys, keys_RT] = Some (Inr stale) \<and> \<not> death stale \<and>
   apple stale \<in> set (snake stale)"
  using play_stale by (simp add: stale_def)

text \<open>
  C9, amended. In every state reached from \<open>__init__\<close> by ticks on none of which
  reset and debug growth are asserted together, the apple is distinct from every
  coordinate of the snake.
\<close>

theorem apple_never_on_snake:
  assumes "play hs rnd seed ks = Some (Inr s)"
    and "\<forall>k\<in>set ks. \<not> (KEY_R k \<and> KEY_T k)"
  shows "apple s \<notin> set (snake s)"
  using apple_off_play[OF assms] by (simp add: apple_off_def)

text \<open>
  An instance: the game one cell below the score bar.
\<close>

theorem apple_never_on_snake_witness:
  "play 6 rnd20 0 [keys_up, no_keys, no_keys, no_keys] = Some (Inr at_wall) \<and>
   \<not> (KEY_R keys_up \<and> KEY_T keys_up) \<and> \<not> (KEY_R no_keys \<and> KEY_T no_keys) \<and>
   apple at_wall \<notin> set (snake at_wall)"
proof -
  have h: "\<forall>k\<in>set [keys_up, no_keys, no_keys, no_keys]. \<not> (KEY_R k \<and> KEY_T k)"
    by (simp add: key_defs)
  from apple_never_on_snake[OF play_at_wall h] play_at_wall h show ?thesis
    by (simp add: key_defs)
qed

subsection \<open>C10: the popped coordinate\<close>

text \<open>
  C10. No run of the game raises AttributeError: whenever the handler of the T key (or
  the apple branch) reads \<open>popped_point\<close>, a movement step has assigned it. The
  coordinate may be one popped in an earlier phase of the game: after a reset on the
  same tick (second conjunct: the snake is the start cell and (6, 11), popped before the
  reset), and while dead (third conjunct: (5, 7), popped by the fatal move).
\<close>

theorem popped_point_defined:
  "play hs rnd seed ks \<noteq> Some (Inl AttributeError) \<and>
   play 6 rnd_stale 0 [no_keys, keys_RT] = Some (Inr stale) \<and>
   play 6 rnd20 0 [keys_up, no_keys, no_keys, no_keys, no_keys, keys_T] = Some (Inr dead_grown)"
  using play_no_AttributeError play_stale play_dead_grown by simp

text \<open>
  An instance: T pressed on the very first tick.
\<close>

theorem popped_point_defined_witness:
  "play 6 rnd20 0 [keys_T] \<noteq> Some (Inl AttributeError) \<and>
   play 6 rnd20 0 [keys_T] =
     Some (Inr (fresh\<lparr>snake := [Point 6 11, Point 5 11], score := 1,
                      popped_point := Some (Point 5 11)\<rparr>))"
proof -
  have e: "play 6 rnd20 0 [keys_T] =
     Some (Inr (fresh\<lparr>snake := [Point 6 11, Point 5 11], score := 1,
                      popped_point := Some (Point 5 11)\<rparr>))"
    unfolding play_def new_game_fresh
    by (simp add: eval_simps fresh_def key_defs rnd20_def)
  from popped_point_defined[of 6 rnd20 0 "[keys_T]"] e show ?thesis by simp
qed

end
